theory Spec2Isabelle
  imports Main "HOL-Library.Word"
begin

section \<open>AIG cut enumeration: the data model of \<^verbatim>\<open>sat_aig_cuts.h\<close>\<close>

text \<open>
  The header declares the class \<^verbatim>\<open>aig_cuts\<close>, its nested types \<^verbatim>\<open>config\<close> and
  \<^verbatim>\<open>node\<close>, and defines a handful of member functions inline. The C++ type
  \<^verbatim>\<open>unsigned\<close> is a 32-bit word: addition and multiplication wrap around, and
  comparisons read the word as an unsigned number.
\<close>

type_synonym unsigned = "32 word"

definition UINT_MAX :: unsigned where
  "UINT_MAX = 0xFFFFFFFF"

datatype bool_op = var_op | and_op | ite_op | xor_op | no_op

subsection \<open>Configuration\<close>

record config =
  m_max_cutset_size :: unsigned
  m_max_aux :: unsigned
  m_max_insertions :: unsigned
  m_full :: bool

text \<open>The constructor \<^verbatim>\<open>config()\<close> with its member initialiser list.\<close>

definition config_default :: config where
  "config_default =
     \<lparr> m_max_cutset_size = 20, m_max_aux = 5, m_max_insertions = 20, m_full = False \<rparr>"

subsection \<open>Nodes\<close>

record node =
  m_sign :: bool
  m_op :: bool_op
  m_size :: unsigned
  m_offset :: unsigned

text \<open>The three constructors of \<^verbatim>\<open>node\<close>.\<close>

definition node_default :: node where
  "node_default = \<lparr> m_sign = False, m_op = no_op, m_size = UINT_MAX, m_offset = UINT_MAX \<rparr>"

definition node_var :: "unsigned \<Rightarrow> node" where
  "node_var v = \<lparr> m_sign = False, m_op = var_op, m_size = 0, m_offset = v \<rparr>"

definition node_explicit :: "bool \<Rightarrow> bool_op \<Rightarrow> unsigned \<Rightarrow> unsigned \<Rightarrow> node" where
  "node_explicit sgn_bit opr nc off = \<lparr> m_sign = sgn_bit, m_op = opr, m_size = nc, m_offset = off \<rparr>"

definition is_valid :: "node \<Rightarrow> bool" where
  "is_valid n = (m_offset n \<noteq> UINT_MAX)"

definition is_var :: "node \<Rightarrow> bool" where
  "is_var n = (m_op n = var_op)"

definition is_and :: "node \<Rightarrow> bool" where
  "is_and n = (m_op n = and_op)"

definition is_xor :: "node \<Rightarrow> bool" where
  "is_xor n = (m_op n = xor_op)"

definition is_ite :: "node \<Rightarrow> bool" where
  "is_ite n = (m_op n = ite_op)"

definition is_const :: "node \<Rightarrow> bool" where
  "is_const n = (is_and n \<and> m_size n = 0)"

subsection \<open>Literals\<close>

text \<open>
  A variable (\<^verbatim>\<open>bool_var\<close>) is an \<^verbatim>\<open>unsigned\<close> index, and a literal is a variable with a
  polarity. The header only uses \<^verbatim>\<open>lit.var()\<close> of it; both types come from
  \<^verbatim>\<open>sat_types.h\<close>.
\<close>

datatype literal = Literal (lit_var: unsigned) (lit_sign: bool)

subsection \<open>The state of an \<^verbatim>\<open>aig_cuts\<close> object\<close>

text \<open>
  The data members that the operations below read or write. The cut-set type comes from
  \<^verbatim>\<open>sat_cutset.h\<close>; it is a type parameter \<open>'cs\<close> here. The per-variable capacity vector
  \<^verbatim>\<open>m_max_cutset_size\<close> shares its name with a field of \<^verbatim>\<open>config\<close>; it is
  \<open>m_max_cutset_size_vec\<close> in the record. The random generator, the memory region and
  the callbacks are left out: no operation modelled here touches them.
\<close>

record 'cs aig_cuts =
  m_config :: config
  m_aig :: "node list list"
  m_literals :: "literal list"
  m_cut_set1 :: 'cs
  m_cut_set2 :: 'cs
  m_cuts :: "'cs list"
  m_max_cutset_size_vec :: "unsigned list"
  m_last_touched :: "unsigned list"
  m_num_cut_calls :: unsigned
  m_num_cuts :: unsigned
  m_roots :: "(unsigned \<times> literal) list"
  m_insertions :: unsigned
  m_clause :: "literal list"

text \<open>
  Reading or writing a vector outside its bounds, and a failed \<^verbatim>\<open>SASSERT\<close>, have no
  defined result in the program. The model makes both an error value.
\<close>

datatype error = Index_out_of_range | Assertion_violation

definition bind_result :: "error + 'a \<Rightarrow> ('a \<Rightarrow> error + 'b) \<Rightarrow> error + 'b" where
  "bind_result r f = (case r of Inl e \<Rightarrow> Inl e | Inr x \<Rightarrow> f x)"

text \<open>\<^verbatim>\<open>m_aig.size()\<close>: the length of the store as an \<^verbatim>\<open>unsigned\<close>.\<close>

definition aig_size :: "'cs aig_cuts \<Rightarrow> unsigned" where
  "aig_size s = of_nat (length (m_aig s))"

subsection \<open>Touch stamps\<close>

text \<open>
  \<^verbatim>\<open>void touch(bool_var v) { m_last_touched[v] = v + m_num_cut_calls * m_aig.size(); }\<close>
\<close>

definition touch :: "unsigned \<Rightarrow> 'cs aig_cuts \<Rightarrow> error + 'cs aig_cuts" where
  "touch v s =
     (if unat v < length (m_last_touched s)
      then Inr (s\<lparr> m_last_touched :=
                    (m_last_touched s)[unat v := v + m_num_cut_calls s * aig_size s] \<rparr>)
      else Inl Index_out_of_range)"

text \<open>
  \<^verbatim>\<open>bool is_touched(bool_var v) const {
     return m_last_touched[v] + m_aig.size() >= m_num_cut_calls * m_aig.size(); }\<close>
\<close>

definition is_touched :: "unsigned \<Rightarrow> 'cs aig_cuts \<Rightarrow> error + bool" where
  "is_touched v s =
     (if unat v < length (m_last_touched s)
      then Inr (m_num_cut_calls s * aig_size s \<le> m_last_touched s ! unat v + aig_size s)
      else Inl Index_out_of_range)"

definition is_touched_lit :: "literal \<Rightarrow> 'cs aig_cuts \<Rightarrow> error + bool" where
  "is_touched_lit l s = is_touched (lit_var l) s"

subsection \<open>Capacities\<close>

text \<open>
  \<^verbatim>\<open>unsigned max_cutset_size(unsigned v) const {
     return v == UINT_MAX ? m_config.m_max_cutset_size : m_max_cutset_size[v]; }\<close>
\<close>

definition max_cutset_size :: "unsigned \<Rightarrow> 'cs aig_cuts \<Rightarrow> error + unsigned" where
  "max_cutset_size v s =
     (if v = UINT_MAX then Inr (m_max_cutset_size (m_config s))
      else if unat v < length (m_max_cutset_size_vec s)
      then Inr (m_max_cutset_size_vec s ! unat v)
      else Inl Index_out_of_range)"

text \<open>
  \<^verbatim>\<open>void inc_max_cutset_size(unsigned v) { m_max_cutset_size[v] += 10; touch(v); }\<close>
\<close>

definition inc_max_cutset_size :: "unsigned \<Rightarrow> 'cs aig_cuts \<Rightarrow> error + 'cs aig_cuts" where
  "inc_max_cutset_size v s =
     (if unat v < length (m_max_cutset_size_vec s)
      then touch v (s\<lparr> m_max_cutset_size_vec :=
                        (m_max_cutset_size_vec s)[unat v := m_max_cutset_size_vec s ! unat v + 10] \<rparr>)
      else Inl Index_out_of_range)"

subsection \<open>Children of a node\<close>

text \<open>
  \<^verbatim>\<open>literal child(node const& n, unsigned idx) const {
     SASSERT(!n.is_var()); SASSERT(idx < n.size()); return m_literals[n.offset() + idx]; }\<close>
\<close>

definition child :: "node \<Rightarrow> unsigned \<Rightarrow> 'cs aig_cuts \<Rightarrow> error + literal" where
  "child n idx s =
     (if is_var n \<or> \<not> idx < m_size n then Inl Assertion_violation
      else if unat (m_offset n + idx) < length (m_literals s)
      then Inr (m_literals s ! unat (m_offset n + idx))
      else Inl Index_out_of_range)"

section \<open>Parts of the engine that the header only declares\<close>

text \<open>
  The header declares the constructor, \<^verbatim>\<open>add_var\<close>, \<^verbatim>\<open>add_node\<close>, \<^verbatim>\<open>set_root\<close>,
  \<^verbatim>\<open>operator()\<close> and the private helpers behind them; their bodies are in
  \<^verbatim>\<open>sat_aig_cuts.cpp\<close>, and the cut and cut-set types are in \<^verbatim>\<open>sat_cutset.h\<close>. Neither
  file is part of the sources, so this section follows the specification of the engine,
  sentence by sentence, and calls the header's inline functions wherever the
  specification names what they do.
\<close>

subsection \<open>Cuts and cut-sets\<close>

text \<open>
  Modelled from the spec: the types \<^verbatim>\<open>cut\<close> and \<^verbatim>\<open>cut_set\<close> of \<^verbatim>\<open>sat_cutset.h\<close> are
  missing. A cut is "a (support set of literals, truth-table bit pattern) pair", the table a
  fixed-width bit pattern indexed by the assignment of the support; a cut-set is the
  collection of the cuts of one variable, kept here in the order of insertion.
\<close>

record cut =
  cut_support :: "unsigned list"
  cut_table :: "64 word"

type_synonym cut_set = "cut list"
type_synonym aig_state = "cut_set aig_cuts"

text \<open>
  Modelled from the spec: the identity cut that \<^verbatim>\<open>init_cut_set\<close> creates is missing. It is
  "the trivial unit cut" with support \<open>{v}\<close> and the identity table: row 0 (\<open>v\<close> false) is 0
  and row 1 (\<open>v\<close> true) is 1.
\<close>

definition trivial_cut :: "unsigned \<Rightarrow> cut" where
  "trivial_cut v = \<lparr> cut_support = [v], cut_table = 2 \<rparr>"

text \<open>
  Modelled from the spec: the body of the constructor \<^verbatim>\<open>aig_cuts()\<close> is missing. A fresh
  engine has the default configuration, no variable, an empty arena, no root and has run
  no enumeration pass.
\<close>

definition init_state :: aig_state where
  "init_state =
     \<lparr> m_config = config_default, m_aig = [], m_literals = [],
       m_cut_set1 = [], m_cut_set2 = [], m_cuts = [],
       m_max_cutset_size_vec = [], m_last_touched = [],
       m_num_cut_calls = 0, m_num_cuts = 0, m_roots = [], m_insertions = 0,
       m_clause = [] \<rparr>"

subsection \<open>Registering variables\<close>

text \<open>
  Modelled from the spec: \<^verbatim>\<open>reserve\<close> is missing. "The store must defensively grow its
  backing storage (reserve) rather than fail, since variables may be introduced lazily":
  every per-variable vector grows to hold index \<open>v\<close>; a new variable has no definition, an
  empty cut-set, the default capacity of the configuration and the stamp 0.
\<close>

definition grow :: "nat \<Rightarrow> 'a \<Rightarrow> 'a list \<Rightarrow> 'a list" where
  "grow n x xs = xs @ replicate (n - length xs) x"

definition reserve :: "unsigned \<Rightarrow> aig_state \<Rightarrow> aig_state" where
  "reserve v s =
     s\<lparr> m_aig := grow (Suc (unat v)) [] (m_aig s),
        m_cuts := grow (Suc (unat v)) [] (m_cuts s),
        m_max_cutset_size_vec :=
          grow (Suc (unat v)) (m_max_cutset_size (m_config s)) (m_max_cutset_size_vec s),
        m_last_touched := grow (Suc (unat v)) 0 (m_last_touched s) \<rparr>"

text \<open>
  Modelled from the spec: \<^verbatim>\<open>init_cut_set\<close> is missing. It leaves the variable with its
  trivial identity cut alone.
\<close>

definition init_cut_set :: "unsigned \<Rightarrow> aig_state \<Rightarrow> aig_state" where
  "init_cut_set v s = s\<lparr> m_cuts := (m_cuts s)[unat v := [trivial_cut v]] \<rparr>"

text \<open>
  Modelled from the spec: \<^verbatim>\<open>add_var\<close> is missing. It "registers a leaf variable; creates its
  trivial identity cut". A variable that has a definition already is registered, and
  nothing changes for it; a new definition marks its variable ("Touch Tracker marks
  affected variables").
\<close>

definition add_var :: "unsigned \<Rightarrow> aig_state \<Rightarrow> error + aig_state" where
  "add_var v s =
     (let s1 = reserve v s in
      if m_aig s1 ! unat v = []
      then touch v (init_cut_set v (s1\<lparr> m_aig := (m_aig s1)[unat v := [node_var v]] \<rparr>))
      else Inr s1)"

subsection \<open>Adding a definition\<close>

text \<open>
  Modelled from the spec: \<^verbatim>\<open>insert_aux\<close> and the body of \<^verbatim>\<open>add_node\<close> are missing.
  \<^verbatim>\<open>add_node\<close> "registers a new alternative definition for \<^verbatim>\<open>head.var()\<close>, built from
  \<^verbatim>\<open>op\<close> and the literal list \<^verbatim>\<open>args\<close>, storing \<^verbatim>\<open>head\<close>'s sign as the node's sign. Rejects
  (silently ignores) insertion if the variable already holds the configured maximum number
  of alternatives, unless the new definition has strictly fewer children than the worst
  existing alternative, in which case the worst is evicted to make room. Invalidates
  (touches) the target variable so its cut-set is rebuilt." The children "live
  contiguously" in the arena from the node's offset on, so they are appended to the arena
  and the offset is the length the arena had. The worst alternative is the one with the
  most children, the first of them when there are several. A cut-set is "reset when [its]
  owning variable's node definition changes". Reading \<^verbatim>\<open>sz\<close> literals from a shorter
  argument array is an out-of-range read.
\<close>

fun worst_index :: "('a \<Rightarrow> nat) \<Rightarrow> 'a list \<Rightarrow> nat" where
  "worst_index f [] = 0"
| "worst_index f (x # xs) =
     (if list_all (\<lambda>y. f y \<le> f x) xs then 0 else Suc (worst_index f xs))"

definition remove_nth :: "nat \<Rightarrow> 'a list \<Rightarrow> 'a list" where
  "remove_nth i xs = take i xs @ drop (Suc i) xs"

definition store_node ::
  "unsigned \<Rightarrow> node list \<Rightarrow> literal list \<Rightarrow> aig_state \<Rightarrow> error + aig_state" where
  "store_node v alts lits s =
     touch v (init_cut_set v
       (s\<lparr> m_aig := (m_aig s)[unat v := alts], m_literals := m_literals s @ lits \<rparr>))"

definition add_node ::
  "literal \<Rightarrow> bool_op \<Rightarrow> unsigned \<Rightarrow> literal list \<Rightarrow> aig_state \<Rightarrow> error + aig_state" where
  "add_node head opr sz args s =
     (if length args < unat sz then Inl Index_out_of_range
      else
        let lits = take (unat sz) args;
            s1 = fold reserve (lit_var head # map lit_var lits) s;
            v = lit_var head;
            n = node_explicit (lit_sign head) opr sz (of_nat (length (m_literals s1)));
            alts = m_aig s1 ! unat v;
            w = worst_index (\<lambda>a. unat (m_size a)) alts
        in if length alts < unat (m_max_aux (m_config s1))
           then store_node v (alts @ [n]) lits s1
           else if alts \<noteq> [] \<and> sz < m_size (alts ! w)
           then store_node v (remove_nth w alts @ [n]) lits s1
           else Inr s1)"


subsection \<open>Roots\<close>

text \<open>
  Modelled from the spec: the body of \<^verbatim>\<open>set_root\<close> is missing. It "records that \<^verbatim>\<open>v\<close>'s
  canonical literal is now \<^verbatim>\<open>r\<close>" and "must be idempotent"; the flattening happens at the
  next enumeration pass.
\<close>

definition set_root :: "unsigned \<Rightarrow> literal \<Rightarrow> aig_state \<Rightarrow> error + aig_state" where
  "set_root v r s =
     Inr (s\<lparr> m_roots := (if (v, r) \<in> set (m_roots s) then m_roots s
                          else m_roots s @ [(v, r)]) \<rparr>)"

text \<open>
  Modelled from the spec: \<^verbatim>\<open>flush_roots\<close> is missing. It "walks every Node definition and
  every Cut-Set entry and rewrites any child literal whose variable has a non-identity
  Root Map entry to its canonical literal (following the chain to a fixed point, and
  canceling double negations that result from sign composition along the chain)". Root
  chains do not cycle, so a chain is no longer than the root map; the children are
  rewritten where they live, in the arena.
\<close>

fun canonical :: "(unsigned \<times> literal) list \<Rightarrow> nat \<Rightarrow> literal \<Rightarrow> literal" where
  "canonical roots 0 l = l"
| "canonical roots (Suc k) l =
     (case map_of roots (lit_var l) of
        None \<Rightarrow> l
      | Some r \<Rightarrow>
          if lit_var r = lit_var l then l
          else canonical roots k (Literal (lit_var r) (lit_sign r \<noteq> lit_sign l)))"

definition flush_cut :: "(unsigned \<times> literal) list \<Rightarrow> cut \<Rightarrow> cut" where
  "flush_cut roots c =
     c\<lparr> cut_support :=
          map (\<lambda>x. lit_var (canonical roots (length roots) (Literal x False))) (cut_support c) \<rparr>"

definition flush_roots :: "aig_state \<Rightarrow> aig_state" where
  "flush_roots s =
     s\<lparr> m_literals := map (canonical (m_roots s) (length (m_roots s))) (m_literals s),
        m_cuts := map (map (flush_cut (m_roots s))) (m_cuts s) \<rparr>"

subsection \<open>Inserting a cut\<close>

text \<open>
  Modelled from the spec: \<^verbatim>\<open>insert_cut\<close> and the insertion and eviction of \<^verbatim>\<open>cut_set\<close> are
  missing. "Every derived cut is offered to the variable's Cut-Set via \<^verbatim>\<open>insert_cut\<close>,
  which accepts it unless it is subsumed by or syntactically identical to an existing cut;
  if acceptance would exceed the per-variable maximum, the worst cut (by support size, then
  recency) is evicted first." A cut subsumes the cuts whose support contains its own. The
  worst cut has the largest support and, among those, is the oldest. The per-variable
  maximum is read with the header's \<^verbatim>\<open>max_cutset_size\<close>.
\<close>

definition subsumes :: "cut \<Rightarrow> cut \<Rightarrow> bool" where
  "subsumes a c = (set (cut_support a) \<subseteq> set (cut_support c))"

definition evict_worst :: "cut_set \<Rightarrow> cut_set" where
  "evict_worst cs = remove_nth (worst_index (\<lambda>a. length (cut_support a)) cs) cs"

definition insert_cut :: "unsigned \<Rightarrow> cut \<Rightarrow> aig_state \<Rightarrow> error + aig_state" where
  "insert_cut v c s =
     bind_result (max_cutset_size v s) (\<lambda>cap.
       if \<not> unat v < length (m_cuts s) then Inl Index_out_of_range
       else
         let cs = m_cuts s ! unat v in
         if list_ex (\<lambda>a. subsumes a c \<or> a = c) cs then Inr s
         else Inr (s\<lparr> m_cuts := (m_cuts s)[unat v :=
                        (if unat cap < length cs + 1 then evict_worst cs else cs) @ [c]] \<rparr>))"

subsection \<open>The enumeration pass\<close>

text \<open>
  Modelled from the spec: \<^verbatim>\<open>filter_valid_nodes\<close> is declared in the header and defined in
  \<^verbatim>\<open>sat_aig_cuts.cpp\<close>. The enumeration pass starts by filtering "the set of variables
  whose definitions are valid", the invalid node being the sentinel for "no definition
  yet": the ids, in increasing order, of the variables that have a definition and only
  valid ones.
\<close>

definition filter_valid_nodes :: "'cs aig_cuts \<Rightarrow> unsigned list" where
  "filter_valid_nodes s =
     map of_nat (filter (\<lambda>i. m_aig s ! i \<noteq> [] \<and> list_all is_valid (m_aig s ! i))
                        [0..<length (m_aig s)])"

fun fold_result :: "('a \<Rightarrow> 's \<Rightarrow> error + 's) \<Rightarrow> 'a list \<Rightarrow> 's \<Rightarrow> error + 's" where
  "fold_result f [] s = Inr s"
| "fold_result f (x # xs) s = bind_result (f x s) (fold_result f xs)"

text \<open>
  Modelled from the spec: \<^verbatim>\<open>augment\<close> and its composition procedures
  (\<^verbatim>\<open>augment_aig0\<close>, \<^verbatim>\<open>augment_aig1\<close>, \<^verbatim>\<open>augment_aig2\<close>, \<^verbatim>\<open>augment_aigN\<close>,
  \<^verbatim>\<open>augment_ite\<close>) are missing. For a touched variable the composition derives candidate
  cuts from the cut-sets of the children, every one of them "is offered to the variable's
  Cut-Set via \<^verbatim>\<open>insert_cut\<close>", and "after derivation, the variable's touch stamp is
  refreshed". The specification leaves the cut algebra to the cut-set type, so the
  composition is the parameter \<open>derive\<close>: the candidates for a variable in a state, in the
  order they are offered, cut off where a cap of the configuration stops the pass.
\<close>

definition augment ::
  "(aig_state \<Rightarrow> unsigned \<Rightarrow> cut list) \<Rightarrow> unsigned \<Rightarrow> aig_state \<Rightarrow> error + aig_state" where
  "augment derive v s =
     bind_result (is_touched v s) (\<lambda>t.
       if t then bind_result (fold_result (insert_cut v) (derive s v) s) (touch v)
       else Inr s)"

text \<open>
  Modelled from the spec: the body of \<^verbatim>\<open>operator()\<close> is missing. It "runs one full pass:
  filter the set of variables whose definitions are valid, touch-aware augment each, and
  return the full collection of per-variable Cut-Sets", after the flattening pass that
  \<^verbatim>\<open>set_root\<close> asks for, and it counts the pass. The variables are visited "in an order
  that respects data dependency"; the order is the parameter \<open>order\<close>. The collection
  returned is \<open>m_cuts\<close> of the state returned. A pass does not shorten the arena of the
  children: "the arena must outlive every Node referencing it".
\<close>

definition operator_call ::
  "(aig_state \<Rightarrow> unsigned list) \<Rightarrow> (aig_state \<Rightarrow> unsigned \<Rightarrow> cut list) \<Rightarrow> aig_state
     \<Rightarrow> error + aig_state" where
  "operator_call order derive s =
     (let s1 = flush_roots s;
          ids = filter (\<lambda>v. v \<in> set (filter_valid_nodes s1)) (order s1)
      in bind_result (fold_result (augment derive) ids s1)
           (\<lambda>s2. Inr (s2\<lparr> m_num_cut_calls := m_num_cut_calls s2 + 1 \<rparr>)))"

subsection \<open>Sequences of public operations\<close>

text \<open>
  The states that a fresh engine reaches by calls of its public operations that change
  the store, the cut-sets, the capacities or the stamps: \<^verbatim>\<open>add_var\<close>, \<^verbatim>\<open>add_node\<close>,
  \<^verbatim>\<open>set_root\<close>, \<^verbatim>\<open>inc_max_cutset_size\<close>, \<^verbatim>\<open>touch\<close> and \<^verbatim>\<open>operator()\<close>, each with any
  arguments, the enumeration with any composition and any order. The parameter \<open>inc_ok\<close>
  restricts the calls of \<^verbatim>\<open>inc_max_cutset_size\<close>.
\<close>

inductive reachable :: "(aig_state \<Rightarrow> unsigned \<Rightarrow> bool) \<Rightarrow> aig_state \<Rightarrow> bool"
  for inc_ok :: "aig_state \<Rightarrow> unsigned \<Rightarrow> bool" where
  start: "reachable inc_ok init_state"
| after_add_var: "reachable inc_ok s \<Longrightarrow> add_var v s = Inr s' \<Longrightarrow> reachable inc_ok s'"
| after_add_node:
    "reachable inc_ok s \<Longrightarrow> add_node head opr sz args s = Inr s' \<Longrightarrow> reachable inc_ok s'"
| after_set_root: "reachable inc_ok s \<Longrightarrow> set_root v r s = Inr s' \<Longrightarrow> reachable inc_ok s'"
| after_inc:
    "reachable inc_ok s \<Longrightarrow> inc_ok s v \<Longrightarrow> inc_max_cutset_size v s = Inr s'
       \<Longrightarrow> reachable inc_ok s'"
| after_touch: "reachable inc_ok s \<Longrightarrow> touch v s = Inr s' \<Longrightarrow> reachable inc_ok s'"
| after_operator_call:
    "reachable inc_ok s \<Longrightarrow> operator_call order derive s = Inr s' \<Longrightarrow> reachable inc_ok s'"

definition reachable_result ::
  "(aig_state \<Rightarrow> unsigned \<Rightarrow> bool) \<Rightarrow> error + aig_state \<Rightarrow> bool" where
  "reachable_result inc_ok r = (case r of Inl e \<Rightarrow> True | Inr s \<Rightarrow> reachable inc_ok s)"

text \<open>A call of \<^verbatim>\<open>inc_max_cutset_size(v)\<close> whose addition of 10 does not wrap around.\<close>

definition inc_fits :: "aig_state \<Rightarrow> unsigned \<Rightarrow> bool" where
  "inc_fits s v = (unat (m_max_cutset_size_vec s ! unat v) + 10 < 2 ^ 32)"

text \<open>The same call \<open>n\<close> times in a row.\<close>

fun repeat_call :: "nat \<Rightarrow> ('s \<Rightarrow> error + 's) \<Rightarrow> 's \<Rightarrow> error + 's" where
  "repeat_call 0 f s = Inr s"
| "repeat_call (Suc n) f s = bind_result (f s) (repeat_call n f)"

subsection \<open>Invariants\<close>

text \<open>
  The arena invariant: the children of every stored \<^verbatim>\<open>and\<close>, \<^verbatim>\<open>xor\<close> and \<^verbatim>\<open>ite\<close> node lie
  inside the arena.
\<close>

definition arena_ok :: "node list list \<Rightarrow> literal list \<Rightarrow> bool" where
  "arena_ok aig lits =
     (\<forall>alts \<in> set aig. \<forall>n \<in> set alts. m_op n \<in> {and_op, xor_op, ite_op}
        \<longrightarrow> unat (m_offset n) + unat (m_size n) \<le> length lits)"

text \<open>
  The capacity that \<^verbatim>\<open>max_cutset_size\<close> reads for an index, as a number, and the capacity
  invariant: the per-variable vectors have one length, every capacity is at least 1, and
  no cut-set is larger than its capacity.
\<close>

definition capacity :: "config \<Rightarrow> unsigned list \<Rightarrow> nat \<Rightarrow> nat" where
  "capacity cfg vec i =
     (if i = unat UINT_MAX then unat (m_max_cutset_size cfg) else unat (vec ! i))"

definition caps_ok :: "aig_state \<Rightarrow> bool" where
  "caps_ok s =
     (m_config s = config_default
      \<and> length (m_max_cutset_size_vec s) = length (m_cuts s)
      \<and> length (m_last_touched s) = length (m_cuts s)
      \<and> (\<forall>i < length (m_cuts s).
            1 \<le> unat (m_max_cutset_size_vec s ! i)
            \<and> length (m_cuts s ! i) \<le> capacity (m_config s) (m_max_cutset_size_vec s) i))"

section \<open>Concrete states\<close>

text \<open>
  Two variables, each a leaf, in the third enumeration pass. The cut-sets play no role in
  the operations of the header, so the cut-set type is \<open>unit\<close>.
\<close>

definition two_var_state :: "unit aig_cuts" where
  "two_var_state =
     \<lparr> m_config = config_default, m_aig = [[node_var 0], [node_var 1]], m_literals = [],
       m_cut_set1 = (), m_cut_set2 = (), m_cuts = [(), ()],
       m_max_cutset_size_vec = [20, 20],
       m_last_touched = [0, 1],
       m_num_cut_calls = 3, m_num_cuts = 0, m_roots = [], m_insertions = 0,
       m_clause = [] \<rparr>"

text \<open>
  A store of \<open>2\<^sup>2\<^sup>0\<close> variables after 4095 enumeration passes: the product
  \<^verbatim>\<open>m_num_cut_calls * m_aig.size()\<close> is \<open>2\<^sup>3\<^sup>2 - 2\<^sup>2\<^sup>0\<close>, one store size below the
  wrap-around of \<^verbatim>\<open>unsigned\<close>.
\<close>

definition stamp_wrap_state :: "unit aig_cuts" where
  "stamp_wrap_state =
     \<lparr> m_config = config_default, m_aig = replicate 1048576 [], m_literals = [],
       m_cut_set1 = (), m_cut_set2 = (), m_cuts = replicate 1048576 (),
       m_max_cutset_size_vec = replicate 1048576 20,
       m_last_touched = replicate 1048576 0,
       m_num_cut_calls = 4095, m_num_cuts = 0, m_roots = [], m_insertions = 0,
       m_clause = [] \<rparr>"

text \<open>One registered leaf: the state after \<^verbatim>\<open>add_var(0)\<close> on a fresh engine.\<close>

definition one_var_state :: aig_state where
  "one_var_state =
     \<lparr> m_config = config_default, m_aig = [[node_var 0]], m_literals = [],
       m_cut_set1 = [], m_cut_set2 = [], m_cuts = [[trivial_cut 0]],
       m_max_cutset_size_vec = [20], m_last_touched = [0],
       m_num_cut_calls = 0, m_num_cuts = 0, m_roots = [], m_insertions = 0,
       m_clause = [] \<rparr>"

text \<open>
  Three leaves \<open>0\<close>, \<open>1\<close>, \<open>2\<close> and the definition \<open>2 = and(0, 1)\<close>, as a sequence of calls and
  as the state it ends in.
\<close>

definition and_run :: "error + aig_state" where
  "and_run =
     bind_result (bind_result (bind_result (add_var 0 init_state) (add_var 1)) (add_var 2))
       (add_node (Literal 2 False) and_op 2 [Literal 0 False, Literal 1 False])"

definition and_state :: aig_state where
  "and_state =
     \<lparr> m_config = config_default,
       m_aig = [[node_var 0], [node_var 1], [node_var 2, node_explicit False and_op 2 0]],
       m_literals = [Literal 0 False, Literal 1 False],
       m_cut_set1 = [], m_cut_set2 = [],
       m_cuts = [[trivial_cut 0], [trivial_cut 1], [trivial_cut 2]],
       m_max_cutset_size_vec = [20, 20, 20], m_last_touched = [0, 1, 2],
       m_num_cut_calls = 0, m_num_cuts = 0, m_roots = [], m_insertions = 0,
       m_clause = [] \<rparr>"

text \<open>
  A composition that offers 25 cuts, each over one variable of its own, and an order that
  visits variable \<open>2\<close> only: more offers than a cut-set of capacity 20 holds. With them, one
  enumeration pass, then \<^verbatim>\<open>inc_max_cutset_size(2)\<close>, then a second pass.
\<close>

definition unit_cuts :: "aig_state \<Rightarrow> unsigned \<Rightarrow> cut list" where
  "unit_cuts s v = map (\<lambda>i. \<lparr> cut_support = [of_nat i], cut_table = 2 \<rparr>) [10..<35]"

definition visit_two :: "aig_state \<Rightarrow> unsigned list" where
  "visit_two s = [2]"

definition pass_inc_pass :: "error + aig_state" where
  "pass_inc_pass =
     bind_result (bind_result (operator_call visit_two unit_cuts and_state)
                    (inc_max_cutset_size 2))
       (operator_call visit_two unit_cuts)"



section \<open>Configuration defaults\<close>

text \<open>
  Claim C8. The configuration of a freshly constructed object is the one that the
  constructor \<^verbatim>\<open>config()\<close> builds: at most 20 cuts per cut-set, at most 5 alternative
  definitions per variable, at most 20 insertions per enumeration call, and the flag for
  exhaustive composition off.
\<close>

theorem config_default_values:
  "m_max_cutset_size config_default = 20 \<and> m_max_aux config_default = 5
   \<and> m_max_insertions config_default = 20 \<and> m_full config_default = False"
  by (simp add: config_default_def)

section \<open>Valid nodes\<close>

lemma filter_valid_nodes_sound:
  assumes "length (m_aig s) \<le> 2 ^ 32" and "i \<in> set (filter_valid_nodes s)"
  shows "unat i < length (m_aig s) \<and> m_aig s ! unat i \<noteq> []
         \<and> list_all is_valid (m_aig s ! unat i)"
proof -
  from assms(2) obtain k where k: "k < length (m_aig s)" "i = of_nat k"
    "m_aig s ! k \<noteq> []" "list_all is_valid (m_aig s ! k)"
    by (auto simp: filter_valid_nodes_def)
  from k(1) assms(1) have "k < 2 ^ 32" by simp
  then have "unat i = k" using k(2) by (simp add: unat_of_nat)
  with k show ?thesis by simp
qed

text \<open>
  Claim C10. A node is valid exactly when its offset is not \<^verbatim>\<open>UINT_MAX\<close>. The default
  node (operator \<^verbatim>\<open>no_op\<close>, offset \<^verbatim>\<open>UINT_MAX\<close>) is invalid; a node built by the variable
  constructor or by the explicit constructor is valid exactly when the offset it is given
  is not \<^verbatim>\<open>UINT_MAX\<close>, so the variable node of the index \<^verbatim>\<open>UINT_MAX\<close> is invalid. The
  filter of valid nodes keeps no variable that has the default node or that variable node
  among its definitions (the store holds at most \<open>2\<^sup>3\<^sup>2\<close> variables, its size being an
  \<^verbatim>\<open>unsigned\<close>).
\<close>

theorem node_validity:
  "(is_valid n \<longleftrightarrow> m_offset n \<noteq> UINT_MAX)
   \<and> \<not> is_valid node_default \<and> m_op node_default = no_op \<and> m_offset node_default = UINT_MAX
   \<and> (is_valid (node_var v) \<longleftrightarrow> v \<noteq> UINT_MAX)
   \<and> (is_valid (node_explicit sg opr nc off) \<longleftrightarrow> off \<noteq> UINT_MAX)
   \<and> \<not> is_valid (node_var UINT_MAX)
   \<and> (length (m_aig s) \<le> 2 ^ 32 \<longrightarrow> i \<in> set (filter_valid_nodes s) \<longrightarrow>
        node_default \<notin> set (m_aig s ! unat i) \<and> node_var UINT_MAX \<notin> set (m_aig s ! unat i))"
proof -
  have "node_default \<notin> set (m_aig s ! unat i) \<and> node_var UINT_MAX \<notin> set (m_aig s ! unat i)"
    if "length (m_aig s) \<le> 2 ^ 32" "i \<in> set (filter_valid_nodes s)"
    using filter_valid_nodes_sound [OF that]
    by (auto simp: list_all_iff is_valid_def node_default_def node_var_def)
  then show ?thesis
    by (simp add: is_valid_def node_default_def node_var_def node_explicit_def)
qed

theorem node_validity_witness:
  "filter_valid_nodes (two_var_state\<lparr> m_aig := [[node_var 0], [node_default]] \<rparr>) = [0]
   \<and> node_default \<notin> set ([[node_var 0], [node_default :: node]] ! unat (0 :: unsigned))"
  using node_validity [of node_default 0 False and_op 0 0
      "two_var_state\<lparr> m_aig := [[node_var 0], [node_default]] \<rparr>" 0]
  by (simp add: filter_valid_nodes_def two_var_state_def is_valid_def node_var_def
      node_default_def UINT_MAX_def)

section \<open>Touch stamps and the wrap-around of \<^verbatim>\<open>unsigned\<close>\<close>

text \<open>
  The comparison of \<^verbatim>\<open>is_touched\<close> after a \<^verbatim>\<open>touch\<close>, in this pass and in the next one,
  when no sum or product leaves the range of \<^verbatim>\<open>unsigned\<close>.
\<close>

lemma stamp_arith:
  fixes v n :: unsigned and S :: nat
  assumes "unat v + (unat n + 1) * S < 2 ^ 32"
  shows "n * of_nat S \<le> v + n * of_nat S + (of_nat S :: unsigned)"
    and "(n + 1) * of_nat S \<le> v + n * of_nat S + (of_nat S :: unsigned)"
proof -
  let ?S = "of_nat S :: unsigned"
  from assms have b: "unat v + unat n * S + S < 2 ^ 32"
    by (simp add: algebra_simps)
  then have "S < 2 ^ 32" by simp
  then have S: "unat ?S = S"
    by (simp add: unat_of_nat)
  from b have nS: "unat (n * ?S) = unat n * S"
    by (simp add: unat_word_ariths S)
  from b have vnS: "unat (v + n * ?S) = unat v + unat n * S"
    by (simp add: unat_word_ariths(1) nS)
  have "unat (v + n * ?S) + unat ?S < 2 ^ LENGTH(32)"
    using b by (simp add: vnS S)
  then have "unat (v + n * ?S + ?S) = unat (v + n * ?S) + unat ?S"
    by (simp only: unat_add_lem)
  then have all: "unat (v + n * ?S + ?S) = unat v + unat n * S + S"
    by (simp add: vnS S)
  have n1: "unat ((n + 1) * ?S) = (unat n + 1) * S"
  proof -
    have "unat ((n + 1) * ?S) = ((unat n + 1) mod 2 ^ 32 * S) mod 2 ^ 32"
      by (simp add: unat_word_ariths S)
    also have "\<dots> = ((unat n + 1) * S) mod 2 ^ 32"
      by (simp add: mod_mult_left_eq)
    also have "\<dots> = (unat n + 1) * S"
      using assms by simp
    finally show ?thesis .
  qed
  show "n * ?S \<le> v + n * ?S + ?S"
    by (simp add: word_le_nat_alt nS all)
  show "(n + 1) * ?S \<le> v + n * ?S + ?S"
    by (simp add: word_le_nat_alt n1 all)
qed

text \<open>
  Claim C9, as stated, fails. With \<open>2\<^sup>2\<^sup>0\<close> variables and 4095 passes done, \<^verbatim>\<open>touch(0)\<close>
  stores the stamp \<open>2\<^sup>3\<^sup>2 - 2\<^sup>2\<^sup>0\<close>; \<^verbatim>\<open>is_touched(0)\<close> adds the store size to it, the sum
  wraps around to 0, and the comparison with \<open>2\<^sup>3\<^sup>2 - 2\<^sup>2\<^sup>0\<close> is false.
\<close>

theorem touch_is_touched_wraps:
  "unat (0 :: unsigned) < length (m_aig stamp_wrap_state)
   \<and> bind_result (touch 0 stamp_wrap_state) (is_touched 0) = Inr False"
  by (simp add: stamp_wrap_state_def touch_def is_touched_def bind_result_def aig_size_def)

text \<open>
  Claim C9, amended. For a variable \<open>v\<close> with a touch stamp, when
  \<open>v + (m_num_cut_calls + 1) * m_aig.size()\<close> does not exceed \<^verbatim>\<open>UINT_MAX\<close>:
  immediately after \<^verbatim>\<open>touch(v)\<close> the predicate \<^verbatim>\<open>is_touched(v)\<close> is true, and it is
  still true after \<^verbatim>\<open>m_num_cut_calls\<close> is incremented once with the store unchanged.
\<close>

theorem touch_then_is_touched:
  assumes "unat v < length (m_last_touched s)"
    and "unat v + (unat (m_num_cut_calls s) + 1) * length (m_aig s) < 2 ^ 32"
  shows "bind_result (touch v s) (is_touched v) = Inr True
       \<and> bind_result (touch v s)
            (\<lambda>s'. is_touched v (s'\<lparr> m_num_cut_calls := m_num_cut_calls s' + 1 \<rparr>)) = Inr True"
  using assms(1) stamp_arith [OF assms(2)]
  by (simp add: touch_def is_touched_def bind_result_def aig_size_def)

theorem touch_then_is_touched_witness:
  "bind_result (touch 1 two_var_state) (is_touched 1) = Inr True
       \<and> bind_result (touch 1 two_var_state)
            (\<lambda>s'. is_touched 1 (s'\<lparr> m_num_cut_calls := m_num_cut_calls s' + 1 \<rparr>)) = Inr True"
  using touch_then_is_touched [of 1 two_var_state]
  by (simp add: two_var_state_def)

section \<open>Raising the capacity of a cut-set\<close>

text \<open>
  Claim C7, as stated, fails twice. In the store of \<open>2\<^sup>2\<^sup>0\<close> variables after 4095 passes,
  \<^verbatim>\<open>is_touched(0)\<close> is false right after \<^verbatim>\<open>inc_max_cutset_size(0)\<close>: the stamp wraps
  around as above. And a capacity of 4294967290, which 429496727 earlier calls reach from
  20, becomes 4: the addition of 10 wraps around.
\<close>

theorem inc_max_cutset_size_wraps:
  "bind_result (inc_max_cutset_size 0 stamp_wrap_state) (is_touched 0) = Inr False
   \<and> bind_result (inc_max_cutset_size 0
          (two_var_state\<lparr> m_max_cutset_size_vec := [4294967290, 20] \<rparr>))
        (max_cutset_size 0) = Inr 4"
  by (simp add: stamp_wrap_state_def two_var_state_def inc_max_cutset_size_def touch_def
      is_touched_def bind_result_def aig_size_def max_cutset_size_def UINT_MAX_def)

text \<open>
  Claim C7, amended. For a variable \<open>v\<close> with a capacity and a touch stamp, when the old
  capacity is at most \<^verbatim>\<open>UINT_MAX - 10\<close> and \<open>v + (m_num_cut_calls + 1) * m_aig.size()\<close>
  does not exceed \<^verbatim>\<open>UINT_MAX\<close>: \<^verbatim>\<open>inc_max_cutset_size(v)\<close> returns, the capacity of \<open>v\<close>
  is 10 more than before, \<^verbatim>\<open>is_touched(v)\<close> holds, and the capacities of the other
  variables, the definitions, the literal arena and all cut-sets are as before.
\<close>

theorem inc_max_cutset_size_effect:
  assumes "unat v < length (m_max_cutset_size_vec s)"
    and "unat v < length (m_last_touched s)"
    and "unat (m_max_cutset_size_vec s ! unat v) + 10 < 2 ^ 32"
    and "unat v + (unat (m_num_cut_calls s) + 1) * length (m_aig s) < 2 ^ 32"
  shows "\<exists>s'. inc_max_cutset_size v s = Inr s'
     \<and> unat (m_max_cutset_size_vec s' ! unat v) = unat (m_max_cutset_size_vec s ! unat v) + 10
     \<and> is_touched v s' = Inr True
     \<and> length (m_max_cutset_size_vec s') = length (m_max_cutset_size_vec s)
     \<and> (\<forall>w. w \<noteq> unat v \<longrightarrow> m_max_cutset_size_vec s' ! w = m_max_cutset_size_vec s ! w)
     \<and> m_aig s' = m_aig s \<and> m_literals s' = m_literals s
     \<and> m_cuts s' = m_cuts s \<and> m_cut_set1 s' = m_cut_set1 s \<and> m_cut_set2 s' = m_cut_set2 s"
proof -
  have "unat (m_max_cutset_size_vec s ! unat v + 10)
        = unat (m_max_cutset_size_vec s ! unat v) + 10"
    using assms(3) by (simp add: unat_word_ariths)
  then show ?thesis
    using assms(1,2) stamp_arith(1) [OF assms(4)]
    by (simp add: inc_max_cutset_size_def touch_def is_touched_def aig_size_def)
qed

theorem inc_max_cutset_size_effect_witness:
  "\<exists>s'. inc_max_cutset_size 1 two_var_state = Inr s'
     \<and> unat (m_max_cutset_size_vec s' ! 1) = 30
     \<and> is_touched 1 s' = Inr True
     \<and> m_max_cutset_size_vec s' ! 0 = 20
     \<and> m_aig s' = m_aig two_var_state \<and> m_cuts s' = m_cuts two_var_state"
  using inc_max_cutset_size_effect [of 1 two_var_state]
  by (auto simp add: two_var_state_def)


section \<open>The literal arena\<close>

text \<open>A property that every step of a fold keeps holds at its end.\<close>

lemma fold_result_preserves:
  assumes "\<And>x s s'. P s \<Longrightarrow> f x s = Inr s' \<Longrightarrow> P s'"
    and "P s" and "fold_result f xs s = Inr s'"
  shows "P s'"
  using assms(2,3)
proof (induction xs arbitrary: s)
  case Nil
  then show ?case by simp
next
  case (Cons x xs)
  then show ?case
    by (auto simp: bind_result_def split: sum.splits intro: assms(1))
qed

lemma touch_store: "touch v s = Inr s' \<Longrightarrow> m_aig s' = m_aig s \<and> m_literals s' = m_literals s"
  by (auto simp: touch_def split: if_splits)

lemma insert_cut_store:
  "insert_cut v c s = Inr s' \<Longrightarrow> m_aig s' = m_aig s \<and> m_literals s' = m_literals s"
  by (auto simp: insert_cut_def bind_result_def Let_def split: sum.splits if_splits)

lemma augment_store:
  assumes "augment derive v s = Inr s'"
  shows "m_aig s' = m_aig s \<and> m_literals s' = m_literals s"
proof (cases "is_touched v s")
  case (Inl e)
  with assms show ?thesis by (simp add: augment_def bind_result_def)
next
  case (Inr t)
  show ?thesis
  proof (cases t)
    case False
    with Inr assms show ?thesis by (simp add: augment_def bind_result_def)
  next
    case True
    with Inr assms obtain s2 where s2: "fold_result (insert_cut v) (derive s v) s = Inr s2"
      and t: "touch v s2 = Inr s'"
      by (auto simp: augment_def bind_result_def split: sum.splits)
    have "m_aig s2 = m_aig s \<and> m_literals s2 = m_literals s"
      by (rule fold_result_preserves [where f = "insert_cut v", OF _ _ s2])
         (auto dest: insert_cut_store)
    with touch_store [OF t] show ?thesis by simp
  qed
qed

lemma operator_call_store:
  assumes "operator_call order derive s = Inr s'"
  shows "m_aig s' = m_aig s \<and> length (m_literals s') = length (m_literals s)"
proof -
  let ?s1 = "flush_roots s"
  from assms obtain ids s2 where s2: "fold_result (augment derive) ids ?s1 = Inr s2"
    and s': "s' = s2\<lparr> m_num_cut_calls := m_num_cut_calls s2 + 1 \<rparr>"
    by (auto simp: operator_call_def bind_result_def Let_def split: sum.splits)
  have "m_aig s2 = m_aig ?s1 \<and> m_literals s2 = m_literals ?s1"
    by (rule fold_result_preserves [where f = "augment derive", OF _ _ s2])
       (auto dest: augment_store)
  then show ?thesis by (simp add: s' flush_roots_def)
qed

lemma arena_ok_grow: "arena_ok aig lits \<Longrightarrow> arena_ok (grow k [] aig) lits"
  by (auto simp: arena_ok_def grow_def)

lemma reserve_store:
  "m_aig (reserve v s) = grow (Suc (unat v)) [] (m_aig s) \<and> m_literals (reserve v s) = m_literals s"
  by (simp add: reserve_def)

lemma fold_reserve_literals: "m_literals (fold reserve vs s) = m_literals s"
  by (induction vs arbitrary: s) (simp_all add: reserve_store)

lemma fold_reserve_arena:
  "arena_ok (m_aig s) (m_literals s)
   \<Longrightarrow> arena_ok (m_aig (fold reserve vs s)) (m_literals (fold reserve vs s))"
proof (induction vs arbitrary: s)
  case Nil
  then show ?case by simp
next
  case (Cons x xs)
  from Cons.prems have "arena_ok (m_aig (reserve x s)) (m_literals (reserve x s))"
    by (simp add: reserve_store arena_ok_grow)
  from Cons.IH [OF this] show ?case by simp
qed

lemma arena_ok_update:
  assumes "arena_ok aig lits" and "\<forall>n \<in> set alts. m_op n \<in> {and_op, xor_op, ite_op}
        \<longrightarrow> unat (m_offset n) + unat (m_size n) \<le> length lits"
  shows "arena_ok (aig[i := alts]) lits"
  using assms by (auto simp: arena_ok_def dest!: set_update_subset_insert [THEN subsetD])

lemma arena_ok_append: "arena_ok aig lits \<Longrightarrow> arena_ok aig (lits @ ys)"
  by (fastforce simp: arena_ok_def)

lemma add_var_arena:
  assumes "arena_ok (m_aig s) (m_literals s)" and "add_var v s = Inr s'"
  shows "arena_ok (m_aig s') (m_literals s')"
proof -
  have r: "arena_ok (m_aig (reserve v s)) (m_literals (reserve v s))"
    using assms(1) by (simp add: reserve_store arena_ok_grow)
  show ?thesis
  proof (cases "m_aig (reserve v s) ! unat v = []")
    case False
    with assms(2) r show ?thesis by (simp add: add_var_def Let_def)
  next
    case True
    with assms(2) have "touch v (init_cut_set v
        ((reserve v s)\<lparr> m_aig := (m_aig (reserve v s))[unat v := [node_var v]] \<rparr>)) = Inr s'"
      by (simp add: add_var_def Let_def)
    from touch_store [OF this] have "m_aig s' = (m_aig (reserve v s))[unat v := [node_var v]]"
      and "m_literals s' = m_literals (reserve v s)"
      by (simp_all add: init_cut_set_def)
    moreover have "arena_ok ((m_aig (reserve v s))[unat v := [node_var v]]) (m_literals (reserve v s))"
      by (rule arena_ok_update [OF r]) (simp add: node_var_def)
    ultimately show ?thesis by simp
  qed
qed

lemma store_node_arena:
  assumes "arena_ok (m_aig s) (m_literals s)"
    and "\<forall>n \<in> set alts. m_op n \<in> {and_op, xor_op, ite_op}
        \<longrightarrow> unat (m_offset n) + unat (m_size n) \<le> length (m_literals s @ lits)"
    and "store_node v alts lits s = Inr s'"
  shows "arena_ok (m_aig s') (m_literals s')"
proof -
  from touch_store [OF assms(3) [unfolded store_node_def]]
  have "m_aig s' = (m_aig s)[unat v := alts]" and "m_literals s' = m_literals s @ lits"
    by (simp_all add: init_cut_set_def)
  moreover have "arena_ok ((m_aig s)[unat v := alts]) (m_literals s @ lits)"
    by (rule arena_ok_update [OF arena_ok_append [OF assms(1)] assms(2)])
  ultimately show ?thesis by simp
qed

lemma arena_ok_nth:
  "arena_ok aig lits \<Longrightarrow> i < length aig \<Longrightarrow> n \<in> set (aig ! i)
   \<Longrightarrow> m_op n \<in> {and_op, xor_op, ite_op}
   \<Longrightarrow> unat (m_offset n) + unat (m_size n) \<le> length lits"
  unfolding arena_ok_def using nth_mem by blast

lemma set_remove_nth: "set (remove_nth i xs) \<subseteq> set xs"
  by (auto simp: remove_nth_def dest: in_set_takeD in_set_dropD)

lemma length_grow: "length (grow n x xs) = max n (length xs)"
  by (simp add: grow_def)

lemma reserve_lengths:
  "length (m_aig (reserve v s)) = max (Suc (unat v)) (length (m_aig s))
   \<and> length (m_cuts (reserve v s)) = max (Suc (unat v)) (length (m_cuts s))
   \<and> length (m_max_cutset_size_vec (reserve v s))
       = max (Suc (unat v)) (length (m_max_cutset_size_vec s))
   \<and> length (m_last_touched (reserve v s)) = max (Suc (unat v)) (length (m_last_touched s))"
  by (simp add: reserve_def length_grow)

lemma fold_reserve_mono: "length (m_aig s) \<le> length (m_aig (fold reserve vs s))"
proof (induction vs arbitrary: s)
  case Nil
  show ?case by simp
next
  case (Cons x xs)
  have "length (m_aig s) \<le> length (m_aig (reserve x s))"
    by (simp add: reserve_lengths)
  also have "\<dots> \<le> length (m_aig (fold reserve xs (reserve x s)))"
    by (rule Cons.IH)
  finally show ?case by simp
qed

lemma fold_reserve_in_range:
  assumes "v \<in> set vs"
  shows "unat v < length (m_aig (fold reserve vs s))"
  using assms
proof (induction vs arbitrary: s)
  case Nil
  then show ?case by simp
next
  case (Cons x xs)
  show ?case
  proof (cases "v = x")
    case True
    have "unat v < length (m_aig (reserve x s))"
      by (simp add: True reserve_lengths)
    also have "\<dots> \<le> length (m_aig (fold reserve xs (reserve x s)))"
      by (rule fold_reserve_mono)
    finally show ?thesis by simp
  next
    case False
    with Cons.prems have "v \<in> set xs" by simp
    from Cons.IH [OF this] show ?thesis by simp
  qed
qed

lemma add_node_arena:
  assumes ok: "arena_ok (m_aig s) (m_literals s)" and "add_node head opr sz args s = Inr s'"
  shows "arena_ok (m_aig s') (m_literals s')"
proof -
  define lits where "lits = take (unat sz) args"
  define s1 where "s1 = fold reserve (lit_var head # map lit_var lits) s"
  define n where "n = node_explicit (lit_sign head) opr sz (of_nat (length (m_literals s1)))"
  define alts where "alts = m_aig s1 ! unat (lit_var head)"
  from assms(2) have len: "unat sz \<le> length args"
    by (auto simp: add_node_def split: if_splits)
  then have ll: "length lits = unat sz" by (simp add: lits_def)
  have ok1: "arena_ok (m_aig s1) (m_literals s1)"
    unfolding s1_def by (rule fold_reserve_arena [OF ok])
  have "unat (of_nat (length (m_literals s1)) :: unsigned) \<le> length (m_literals s1)"
    by (simp add: unat_of_nat)
  then have new: "unat (m_offset n) + unat (m_size n) \<le> length (m_literals s1 @ lits)"
    by (simp add: n_def node_explicit_def ll)
  have old: "\<forall>a \<in> set alts. m_op a \<in> {and_op, xor_op, ite_op}
        \<longrightarrow> unat (m_offset a) + unat (m_size a) \<le> length (m_literals s1 @ lits)"
  proof -
    have "unat (lit_var head) < length (m_aig s1)"
      unfolding s1_def by (rule fold_reserve_in_range) simp
    then have "alts \<in> set (m_aig s1)" by (simp add: alts_def)
    with ok1 show ?thesis by (fastforce simp: arena_ok_def)
  qed
  consider (below) "length alts < unat (m_max_aux (m_config s1))"
    | (evict) "\<not> length alts < unat (m_max_aux (m_config s1))" "alts \<noteq> []"
        "sz < m_size (alts ! worst_index (\<lambda>a. unat (m_size a)) alts)"
    | (ignore) "\<not> length alts < unat (m_max_aux (m_config s1))"
        "\<not> (alts \<noteq> [] \<and> sz < m_size (alts ! worst_index (\<lambda>a. unat (m_size a)) alts))"
    by blast
  then show ?thesis
  proof cases
    case below
    with assms(2) len have "store_node (lit_var head) (alts @ [n]) lits s1 = Inr s'"
      by (simp add: add_node_def Let_def lits_def s1_def n_def alts_def)
    then show ?thesis
      by (rule store_node_arena [OF ok1, rotated]) (use old new in auto)
  next
    case evict
    with assms(2) len have "store_node (lit_var head)
        (remove_nth (worst_index (\<lambda>a. unat (m_size a)) alts) alts @ [n]) lits s1 = Inr s'"
      by (simp add: add_node_def Let_def lits_def s1_def n_def alts_def)
    then show ?thesis
      by (rule store_node_arena [OF ok1, rotated])
         (use old new set_remove_nth in fastforce)
  next
    case ignore
    with assms(2) len have "s' = s1"
      by (auto simp add: add_node_def Let_def lits_def s1_def n_def alts_def split: if_splits)
    with ok1 show ?thesis by simp
  qed
qed


lemma arena_ok_same_length:
  "arena_ok aig lits \<Longrightarrow> length lits' = length lits \<Longrightarrow> arena_ok aig lits'"
  by (simp add: arena_ok_def)

lemma inc_store:
  "inc_max_cutset_size v s = Inr s' \<Longrightarrow> m_aig s' = m_aig s \<and> m_literals s' = m_literals s"
  by (auto simp: inc_max_cutset_size_def split: if_splits dest!: touch_store)

lemma reachable_arena_ok:
  "reachable inc_ok s \<Longrightarrow> arena_ok (m_aig s) (m_literals s)"
proof (induction rule: reachable.induct)
  case start
  show ?case by (simp add: init_state_def arena_ok_def)
next
  case (after_add_var s v s')
  then show ?case by (blast intro: add_var_arena)
next
  case (after_add_node s head opr sz args s')
  then show ?case by (blast intro: add_node_arena)
next
  case (after_set_root s v r s')
  then show ?case by (auto simp: set_root_def)
next
  case (after_inc s v s')
  then show ?case by (auto dest: inc_store)
next
  case (after_touch s v s')
  then show ?case by (auto dest: touch_store)
next
  case (after_operator_call s order derive s')
  from operator_call_store [OF after_operator_call.hyps(2)] after_operator_call.IH
  show ?case by (auto intro: arena_ok_same_length)
qed

lemma child_in_bounds:
  assumes "unat (m_offset n) + unat (m_size n) \<le> length (m_literals s)"
    and "\<not> is_var n" and "idx < m_size n"
  shows "unat (m_offset n + idx) < length (m_literals s)
       \<and> child n idx s = Inr (m_literals s ! unat (m_offset n + idx))"
proof -
  have "unat (m_offset n + idx) \<le> unat (m_offset n) + unat idx"
    by (simp add: unat_word_ariths)
  also have "\<dots> < unat (m_offset n) + unat (m_size n)"
    using assms(3) by (simp add: word_less_nat_alt)
  finally have "unat (m_offset n + idx) < length (m_literals s)"
    using assms(1) by simp
  then show ?thesis using assms(2,3) by (simp add: child_def)
qed

text \<open>
  Claim C6. In every state that a sequence of public operations reaches, every stored node
  \<open>n\<close> whose operator is \<^verbatim>\<open>and\<close>, \<^verbatim>\<open>xor\<close> or \<^verbatim>\<open>ite\<close> satisfies
  \<open>n.offset() + n.size() \<le> m_literals.size()\<close>, and for every \<open>idx < n.size()\<close> the call
  \<^verbatim>\<open>child(n, idx)\<close> returns the arena entry at \<open>n.offset() + idx\<close>, an index inside the
  arena.
\<close>

theorem arena_in_bounds:
  assumes "reachable inc_ok s" and "v < length (m_aig s)" and "n \<in> set (m_aig s ! v)"
    and "m_op n \<in> {and_op, xor_op, ite_op}"
  shows "unat (m_offset n) + unat (m_size n) \<le> length (m_literals s)
       \<and> (\<forall>idx. idx < m_size n \<longrightarrow>
            unat (m_offset n + idx) < length (m_literals s)
            \<and> child n idx s = Inr (m_literals s ! unat (m_offset n + idx)))"
proof -
  have b: "unat (m_offset n) + unat (m_size n) \<le> length (m_literals s)"
    by (rule arena_ok_nth [OF reachable_arena_ok [OF assms(1)] assms(2,3,4)])
  have "\<not> is_var n" using assms(4) by (auto simp: is_var_def)
  with b show ?thesis by (simp add: child_in_bounds)
qed

text \<open>The state of the three leaves and one \<^verbatim>\<open>and\<close> node is reachable.\<close>

lemma and_run_eq: "and_run = Inr and_state"
  by (simp add: and_run_def and_state_def bind_result_def add_var_def add_node_def
      init_state_def reserve_def grow_def touch_def init_cut_set_def store_node_def
      aig_size_def Let_def config_default_def node_var_def node_explicit_def)

lemma reachable_result_bind:
  assumes "reachable_result inc_ok r" and "\<And>s s'. reachable inc_ok s \<Longrightarrow> f s = Inr s' \<Longrightarrow> reachable inc_ok s'"
  shows "reachable_result inc_ok (bind_result r f)"
  using assms by (auto simp: reachable_result_def bind_result_def split: sum.splits)

lemma and_state_reachable: "reachable inc_ok and_state"
proof -
  have "reachable_result inc_ok and_run"
    unfolding and_run_def
    by (intro reachable_result_bind)
       (auto simp: reachable_result_def intro: reachable.intros split: sum.splits)
  then show ?thesis by (simp add: and_run_eq reachable_result_def)
qed

theorem arena_in_bounds_witness:
  "unat (m_offset (node_explicit False and_op 2 0)) + unat (m_size (node_explicit False and_op 2 0))
     \<le> length (m_literals and_state)
   \<and> child (node_explicit False and_op 2 0) 1 and_state = Inr (Literal 1 False)"
  using arena_in_bounds [OF and_state_reachable, of 2 "node_explicit False and_op 2 0"]
  by (simp add: and_state_def node_explicit_def)

section \<open>The capacity of a cut-set\<close>

lemma caps_okI:
  assumes "m_config s = config_default"
    and "length (m_max_cutset_size_vec s) = length (m_cuts s)"
    and "length (m_last_touched s) = length (m_cuts s)"
    and "\<And>i. i < length (m_cuts s) \<Longrightarrow> 1 \<le> unat (m_max_cutset_size_vec s ! i)"
    and "\<And>i. i < length (m_cuts s)
            \<Longrightarrow> length (m_cuts s ! i) \<le> capacity config_default (m_max_cutset_size_vec s) i"
  shows "caps_ok s"
  using assms by (auto simp: caps_ok_def)

lemma caps_ok_config: "caps_ok s \<Longrightarrow> m_config s = config_default"
  and caps_ok_len_vec: "caps_ok s \<Longrightarrow> length (m_max_cutset_size_vec s) = length (m_cuts s)"
  and caps_ok_len_touched: "caps_ok s \<Longrightarrow> length (m_last_touched s) = length (m_cuts s)"
  and caps_ok_vec_pos:
    "caps_ok s \<Longrightarrow> i < length (m_cuts s) \<Longrightarrow> 1 \<le> unat (m_max_cutset_size_vec s ! i)"
  unfolding caps_ok_def by blast+

lemma caps_ok_bound:
  assumes "caps_ok s" and "i < length (m_cuts s)"
  shows "length (m_cuts s ! i) \<le> capacity config_default (m_max_cutset_size_vec s) i"
proof -
  from assms(1) have c: "m_config s = config_default"
    and a: "\<forall>i < length (m_cuts s). 1 \<le> unat (m_max_cutset_size_vec s ! i)
            \<and> length (m_cuts s ! i) \<le> capacity (m_config s) (m_max_cutset_size_vec s) i"
    unfolding caps_ok_def by blast+
  from a assms(2)
  have "length (m_cuts s ! i) \<le> capacity (m_config s) (m_max_cutset_size_vec s) i"
    by blast
  then show ?thesis by (simp only: c)
qed

lemma capacity_pos:
  assumes "caps_ok s" and "i < length (m_cuts s)"
  shows "1 \<le> capacity config_default (m_max_cutset_size_vec s) i"
  using caps_ok_vec_pos [OF assms] by (simp add: capacity_def config_default_def)

lemma max_cutset_size_capacity:
  assumes "unat v < length (m_max_cutset_size_vec s)"
  shows "\<exists>cap. max_cutset_size v s = Inr cap
     \<and> unat cap = capacity (m_config s) (m_max_cutset_size_vec s) (unat v)"
  using assms by (auto simp: max_cutset_size_def capacity_def word_unat_eq_iff)

lemma caps_ok_reserve:
  assumes "caps_ok s"
  shows "caps_ok (reserve v s)"
proof (rule caps_okI)
  note cfg = caps_ok_config [OF assms]
  note len = caps_ok_len_vec [OF assms] caps_ok_len_touched [OF assms]
  show "m_config (reserve v s) = config_default"
    using cfg by (simp add: reserve_def)
  show "length (m_max_cutset_size_vec (reserve v s)) = length (m_cuts (reserve v s))"
    using len by (simp add: reserve_lengths)
  show "length (m_last_touched (reserve v s)) = length (m_cuts (reserve v s))"
    using len by (simp add: reserve_lengths)
  show "1 \<le> unat (m_max_cutset_size_vec (reserve v s) ! i)"
    if "i < length (m_cuts (reserve v s))" for i
  proof (cases "i < length (m_cuts s)")
    case True
    with caps_ok_vec_pos [OF assms True] len show ?thesis
      by (simp add: reserve_def grow_def nth_append)
  next
    case False
    with that len cfg show ?thesis
      by (simp add: reserve_def grow_def nth_append config_default_def)
  qed
  show "length (m_cuts (reserve v s) ! i)
          \<le> capacity config_default (m_max_cutset_size_vec (reserve v s)) i"
    if "i < length (m_cuts (reserve v s))" for i
  proof (cases "i < length (m_cuts s)")
    case True
    with caps_ok_bound [OF assms True] len show ?thesis
      by (auto simp: reserve_def grow_def nth_append capacity_def split: if_splits)
  next
    case False
    with that len show ?thesis
      by (simp add: reserve_def grow_def nth_append)
  qed
qed

lemma caps_ok_fold_reserve: "caps_ok s \<Longrightarrow> caps_ok (fold reserve vs s)"
  by (induction vs arbitrary: s) (simp_all add: caps_ok_reserve)

lemma caps_ok_cong:
  assumes "caps_ok s" and "m_config s' = m_config s" and "m_cuts s' = m_cuts s"
    and "m_max_cutset_size_vec s' = m_max_cutset_size_vec s"
    and "length (m_last_touched s') = length (m_last_touched s)"
  shows "caps_ok s'"
proof (rule caps_okI)
  show "m_config s' = config_default"
    using caps_ok_config [OF assms(1)] assms(2) by simp
  show "length (m_max_cutset_size_vec s') = length (m_cuts s')"
    using caps_ok_len_vec [OF assms(1)] assms(3,4) by simp
  show "length (m_last_touched s') = length (m_cuts s')"
    using caps_ok_len_touched [OF assms(1)] assms(3,5) by simp
  show "1 \<le> unat (m_max_cutset_size_vec s' ! i)" if "i < length (m_cuts s')" for i
    using caps_ok_vec_pos [OF assms(1), of i] that assms(3,4) by simp
  show "length (m_cuts s' ! i) \<le> capacity config_default (m_max_cutset_size_vec s') i"
    if "i < length (m_cuts s')" for i
    using caps_ok_bound [OF assms(1), of i] that assms(3,4) by simp
qed

lemma caps_ok_set_cuts:
  assumes "caps_ok s" and "length new \<le> capacity config_default (m_max_cutset_size_vec s) i"
  shows "caps_ok (s\<lparr> m_cuts := (m_cuts s)[i := new] \<rparr>)"
proof (rule caps_okI)
  let ?s' = "s\<lparr> m_cuts := (m_cuts s)[i := new] \<rparr>"
  show "m_config ?s' = config_default"
    using caps_ok_config [OF assms(1)] by simp
  show "length (m_max_cutset_size_vec ?s') = length (m_cuts ?s')"
    using caps_ok_len_vec [OF assms(1)] by simp
  show "length (m_last_touched ?s') = length (m_cuts ?s')"
    using caps_ok_len_touched [OF assms(1)] by simp
  show "1 \<le> unat (m_max_cutset_size_vec ?s' ! j)" if "j < length (m_cuts ?s')" for j
    using caps_ok_vec_pos [OF assms(1), of j] that by simp
  show "length (m_cuts ?s' ! j) \<le> capacity config_default (m_max_cutset_size_vec ?s') j"
    if "j < length (m_cuts ?s')" for j
    using caps_ok_bound [OF assms(1), of j] that assms(2) by (cases "j = i") simp_all
qed

lemma caps_ok_init_cut_set:
  assumes "caps_ok s"
  shows "caps_ok (init_cut_set v s)"
proof (cases "unat v < length (m_cuts s)")
  case True
  from capacity_pos [OF assms True] show ?thesis
    unfolding init_cut_set_def by (intro caps_ok_set_cuts [OF assms]) simp
next
  case False
  then have "init_cut_set v s = s" by (simp add: init_cut_set_def list_update_beyond)
  with assms show ?thesis by simp
qed

lemma touch_caps:
  assumes "touch v s = Inr s'"
  shows "m_config s' = m_config s \<and> m_cuts s' = m_cuts s
       \<and> m_max_cutset_size_vec s' = m_max_cutset_size_vec s
       \<and> length (m_last_touched s') = length (m_last_touched s)"
  using assms by (auto simp: touch_def split: if_splits)

lemma caps_ok_touch:
  assumes "caps_ok s" and "touch v s = Inr s'"
  shows "caps_ok s'"
  by (rule caps_ok_cong [OF assms(1)]) (use touch_caps [OF assms(2)] in simp_all)

lemma caps_ok_add_var:
  assumes "caps_ok s" and "add_var v s = Inr s'"
  shows "caps_ok s'"
proof (cases "m_aig (reserve v s) ! unat v = []")
  case False
  with assms(2) have "s' = reserve v s" by (simp add: add_var_def Let_def)
  with assms(1) show ?thesis by (simp add: caps_ok_reserve)
next
  case True
  let ?s2 = "(reserve v s)\<lparr> m_aig := (m_aig (reserve v s))[unat v := [node_var v]] \<rparr>"
  have "caps_ok ?s2"
    by (rule caps_ok_cong [OF caps_ok_reserve [OF assms(1), of v]]) simp_all
  then have "caps_ok (init_cut_set v ?s2)" by (rule caps_ok_init_cut_set)
  moreover from True assms(2) have "touch v (init_cut_set v ?s2) = Inr s'"
    by (simp add: add_var_def Let_def)
  ultimately show ?thesis by (rule caps_ok_touch)
qed

lemma caps_ok_store_node:
  assumes "caps_ok s" and "store_node v alts lits s = Inr s'"
  shows "caps_ok s'"
proof -
  let ?s2 = "s\<lparr> m_aig := (m_aig s)[unat v := alts], m_literals := m_literals s @ lits \<rparr>"
  have "caps_ok ?s2" by (rule caps_ok_cong [OF assms(1)]) simp_all
  then have "caps_ok (init_cut_set v ?s2)" by (rule caps_ok_init_cut_set)
  moreover from assms(2) have "touch v (init_cut_set v ?s2) = Inr s'"
    by (simp add: store_node_def)
  ultimately show ?thesis by (rule caps_ok_touch)
qed

lemma add_node_cases:
  fixes head opr sz args s
  defines "lits \<equiv> take (unat sz) args"
  defines "s1 \<equiv> fold reserve (lit_var head # map lit_var lits) s"
  defines "alts \<equiv> m_aig s1 ! unat (lit_var head)"
  defines "n \<equiv> node_explicit (lit_sign head) opr sz (of_nat (length (m_literals s1)))"
  defines "w \<equiv> worst_index (\<lambda>a. unat (m_size a)) alts"
  assumes "add_node head opr sz args s = Inr s'"
  shows "unat sz \<le> length args
    \<and> ((length alts < unat (m_max_aux (m_config s1))
          \<and> store_node (lit_var head) (alts @ [n]) lits s1 = Inr s')
       \<or> (\<not> length alts < unat (m_max_aux (m_config s1)) \<and> alts \<noteq> []
          \<and> sz < m_size (alts ! w)
          \<and> store_node (lit_var head) (remove_nth w alts @ [n]) lits s1 = Inr s')
       \<or> (\<not> length alts < unat (m_max_aux (m_config s1))
          \<and> \<not> (alts \<noteq> [] \<and> sz < m_size (alts ! w)) \<and> s' = s1))"
proof -
  have len: "unat sz \<le> length args"
  proof (rule ccontr)
    assume "\<not> unat sz \<le> length args"
    with assms(6) show False by (simp add: add_node_def)
  qed
  consider (below) "length alts < unat (m_max_aux (m_config s1))"
    | (evict) "\<not> length alts < unat (m_max_aux (m_config s1))" "alts \<noteq> []"
        "sz < m_size (alts ! w)"
    | (ignore) "\<not> length alts < unat (m_max_aux (m_config s1))"
        "\<not> (alts \<noteq> [] \<and> sz < m_size (alts ! w))"
    by blast
  then show ?thesis
  proof cases
    case below
    with assms(6) len have "store_node (lit_var head) (alts @ [n]) lits s1 = Inr s'"
      by (simp add: add_node_def Let_def lits_def s1_def n_def alts_def)
    with below len show ?thesis by simp
  next
    case evict
    with assms(6) len
    have "store_node (lit_var head) (remove_nth w alts @ [n]) lits s1 = Inr s'"
      by (simp add: add_node_def Let_def lits_def s1_def n_def alts_def w_def)
    with evict len show ?thesis by simp
  next
    case ignore
    with assms(6) len have "s' = s1"
      by (auto simp add: add_node_def Let_def lits_def s1_def n_def alts_def w_def
          split: if_splits)
    with ignore len show ?thesis by simp
  qed
qed

lemma caps_ok_add_node:
  assumes "caps_ok s" and "add_node head opr sz args s = Inr s'"
  shows "caps_ok s'"
proof -
  let ?s1 = "fold reserve (lit_var head # map lit_var (take (unat sz) args)) s"
  have ok1: "caps_ok ?s1" by (rule caps_ok_fold_reserve [OF assms(1)])
  from add_node_cases [OF assms(2)]
  have "(\<exists>alts lits. store_node (lit_var head) alts lits ?s1 = Inr s') \<or> s' = ?s1"
    by blast
  then show ?thesis
  proof
    assume "\<exists>alts lits. store_node (lit_var head) alts lits ?s1 = Inr s'"
    then obtain alts lits where "store_node (lit_var head) alts lits ?s1 = Inr s'"
      by blast
    with ok1 show ?thesis by (rule caps_ok_store_node)
  next
    assume "s' = ?s1"
    with ok1 show ?thesis by simp
  qed
qed

lemma caps_ok_set_root:
  assumes "caps_ok s" and "set_root v r s = Inr s'"
  shows "caps_ok s'"
  by (rule caps_ok_cong [OF assms(1)]) (use assms(2) in \<open>auto simp: set_root_def\<close>)

lemma caps_ok_flush_roots:
  assumes "caps_ok s"
  shows "caps_ok (flush_roots s)"
proof (rule caps_okI)
  show "m_config (flush_roots s) = config_default"
    using caps_ok_config [OF assms] by (simp add: flush_roots_def)
  show "length (m_max_cutset_size_vec (flush_roots s)) = length (m_cuts (flush_roots s))"
    using caps_ok_len_vec [OF assms] by (simp add: flush_roots_def)
  show "length (m_last_touched (flush_roots s)) = length (m_cuts (flush_roots s))"
    using caps_ok_len_touched [OF assms] by (simp add: flush_roots_def)
  show "1 \<le> unat (m_max_cutset_size_vec (flush_roots s) ! i)"
    if "i < length (m_cuts (flush_roots s))" for i
    using caps_ok_vec_pos [OF assms, of i] that by (simp add: flush_roots_def)
  show "length (m_cuts (flush_roots s) ! i)
          \<le> capacity config_default (m_max_cutset_size_vec (flush_roots s)) i"
    if "i < length (m_cuts (flush_roots s))" for i
    using caps_ok_bound [OF assms, of i] that by (simp add: flush_roots_def)
qed

lemma worst_index_less: "xs \<noteq> [] \<Longrightarrow> worst_index f xs < length xs"
proof (induction xs)
  case Nil
  then show ?case by simp
next
  case (Cons x xs)
  then show ?case by (cases xs) auto
qed

lemma length_remove_nth: "i < length xs \<Longrightarrow> length (remove_nth i xs) = length xs - 1"
  by (simp add: remove_nth_def)

lemma length_evict_worst: "cs \<noteq> [] \<Longrightarrow> length (evict_worst cs) = length cs - 1"
  by (simp add: evict_worst_def length_remove_nth worst_index_less)

lemma caps_ok_insert_cut:
  assumes "caps_ok s" and "insert_cut v c s = Inr s'"
  shows "caps_ok s'"
proof -
  from assms(2) obtain cap where cap: "max_cutset_size v s = Inr cap"
    and range: "unat v < length (m_cuts s)"
    by (auto simp: insert_cut_def bind_result_def split: sum.splits if_splits)
  let ?cs = "m_cuts s ! unat v"
  have vec: "unat v < length (m_max_cutset_size_vec s)"
    using caps_ok_len_vec [OF assms(1)] range by simp
  from max_cutset_size_capacity [OF vec] cap caps_ok_config [OF assms(1)]
  have capv: "unat cap = capacity config_default (m_max_cutset_size_vec s) (unat v)" by simp
  have old: "length ?cs \<le> unat cap" "1 \<le> unat cap"
    using caps_ok_bound [OF assms(1) range] capacity_pos [OF assms(1) range]
    by (simp_all add: capv)
  show ?thesis
  proof (cases "list_ex (\<lambda>a. subsumes a c \<or> a = c) ?cs")
    case True
    with assms cap range show ?thesis by (simp add: insert_cut_def bind_result_def)
  next
    case False
    let ?new = "(if unat cap < length ?cs + 1 then evict_worst ?cs else ?cs) @ [c]"
    from False assms(2) cap range have s': "s' = s\<lparr> m_cuts := (m_cuts s)[unat v := ?new] \<rparr>"
      by (simp add: insert_cut_def bind_result_def Let_def)
    have new: "length ?new \<le> unat cap"
    proof (cases "unat cap < length ?cs + 1")
      case True
      with old have "?cs \<noteq> []" by auto
      with True old show ?thesis by (simp add: length_evict_worst)
    next
      case False
      then show ?thesis by simp
    qed
    show ?thesis
      unfolding s' by (rule caps_ok_set_cuts [OF assms(1)]) (use new capv in simp)
  qed
qed

lemma caps_ok_augment:
  assumes "caps_ok s" and "augment derive v s = Inr s'"
  shows "caps_ok s'"
proof (cases "is_touched v s")
  case (Inl e)
  with assms show ?thesis by (simp add: augment_def bind_result_def)
next
  case (Inr t)
  show ?thesis
  proof (cases t)
    case False
    with Inr assms show ?thesis by (simp add: augment_def bind_result_def)
  next
    case True
    with Inr assms obtain s2 where s2: "fold_result (insert_cut v) (derive s v) s = Inr s2"
      and t: "touch v s2 = Inr s'"
      by (auto simp: augment_def bind_result_def split: sum.splits)
    have "caps_ok s2"
      by (rule fold_result_preserves [where P = caps_ok and f = "insert_cut v", OF _ assms(1) s2])
         (rule caps_ok_insert_cut)
    then show ?thesis using t by (rule caps_ok_touch)
  qed
qed

lemma caps_ok_operator_call:
  assumes "caps_ok s" and "operator_call order derive s = Inr s'"
  shows "caps_ok s'"
proof -
  let ?s1 = "flush_roots s"
  from assms(2) obtain ids s2 where s2: "fold_result (augment derive) ids ?s1 = Inr s2"
    and s': "s' = s2\<lparr> m_num_cut_calls := m_num_cut_calls s2 + 1 \<rparr>"
    by (auto simp: operator_call_def bind_result_def Let_def split: sum.splits)
  have "caps_ok s2"
    by (rule fold_result_preserves [where P = caps_ok and f = "augment derive",
          OF _ caps_ok_flush_roots [OF assms(1)] s2])
       (rule caps_ok_augment)
  then show ?thesis unfolding s' by (rule caps_ok_cong) simp_all
qed

lemma caps_ok_inc:
  assumes "caps_ok s" and "inc_fits s v" and "inc_max_cutset_size v s = Inr s'"
  shows "caps_ok s'"
proof -
  let ?vec = "m_max_cutset_size_vec s"
  let ?s2 = "s\<lparr> m_max_cutset_size_vec := ?vec[unat v := ?vec ! unat v + 10] \<rparr>"
  from assms(3) have range: "unat v < length ?vec" and t: "touch v ?s2 = Inr s'"
    by (auto simp: inc_max_cutset_size_def split: if_splits)
  have up: "unat (?vec ! unat v + 10) = unat (?vec ! unat v) + 10"
    using assms(2) by (simp add: inc_fits_def unat_word_ariths)
  have "caps_ok ?s2"
  proof (rule caps_okI)
    show "m_config ?s2 = config_default"
      using caps_ok_config [OF assms(1)] by simp
    show "length (m_max_cutset_size_vec ?s2) = length (m_cuts ?s2)"
      using caps_ok_len_vec [OF assms(1)] by simp
    show "length (m_last_touched ?s2) = length (m_cuts ?s2)"
      using caps_ok_len_touched [OF assms(1)] by simp
    show "1 \<le> unat (m_max_cutset_size_vec ?s2 ! i)" if "i < length (m_cuts ?s2)" for i
      using caps_ok_vec_pos [OF assms(1), of i] that up range
      by (cases "i = unat v") simp_all
    show "length (m_cuts ?s2 ! i) \<le> capacity config_default (m_max_cutset_size_vec ?s2) i"
      if "i < length (m_cuts ?s2)" for i
      using caps_ok_bound [OF assms(1), of i] that up range
      by (cases "i = unat v") (auto simp: capacity_def split: if_splits)
  qed
  then show ?thesis using t by (rule caps_ok_touch)
qed

lemma reachable_caps_ok: "reachable inc_fits s \<Longrightarrow> caps_ok s"
proof (induction rule: reachable.induct)
  case start
  show ?case by (simp add: caps_ok_def init_state_def)
next
  case (after_add_var s v s')
  then show ?case by (blast intro: caps_ok_add_var)
next
  case (after_add_node s head opr sz args s')
  then show ?case by (blast intro: caps_ok_add_node)
next
  case (after_set_root s v r s')
  then show ?case by (blast intro: caps_ok_set_root)
next
  case (after_inc s v s')
  then show ?case by (blast intro: caps_ok_inc)
next
  case (after_touch s v s')
  then show ?case by (blast intro: caps_ok_touch)
next
  case (after_operator_call s order derive s')
  then show ?case by (blast intro: caps_ok_operator_call)
qed

text \<open>
  Claim C3, amended. In every state reached by a sequence of public operations in which
  each call \<^verbatim>\<open>inc_max_cutset_size(v)\<close> finds the capacity of \<open>v\<close> at most \<^verbatim>\<open>UINT_MAX - 10\<close>,
  the cut-set of every registered variable \<open>v\<close> has at most as many cuts as the maximum
  that \<^verbatim>\<open>max_cutset_size(v)\<close> returns.
\<close>

theorem cut_set_within_capacity:
  assumes "reachable inc_fits s" and "unat v < length (m_cuts s)"
  shows "\<exists>cap. max_cutset_size v s = Inr cap \<and> length (m_cuts s ! unat v) \<le> unat cap"
proof -
  have ok: "caps_ok s" by (rule reachable_caps_ok [OF assms(1)])
  then have "unat v < length (m_max_cutset_size_vec s)"
    using assms(2) by (simp add: caps_ok_len_vec)
  from max_cutset_size_capacity [OF this] caps_ok_bound [OF ok assms(2)] caps_ok_config [OF ok]
  show ?thesis by auto
qed

text \<open>
  Repeated calls of \<^verbatim>\<open>inc_max_cutset_size(v)\<close> add their tens in the arithmetic of
  \<^verbatim>\<open>unsigned\<close>.
\<close>

lemma repeat_inc:
  fixes s :: "'cs aig_cuts"
  assumes "unat v < length (m_max_cutset_size_vec s)" and "unat v < length (m_last_touched s)"
  shows "repeat_call (Suc n) (inc_max_cutset_size v) s =
     Inr (s\<lparr> m_max_cutset_size_vec :=
                (m_max_cutset_size_vec s)[unat v := m_max_cutset_size_vec s ! unat v + 10 * of_nat (Suc n)],
              m_last_touched :=
                (m_last_touched s)[unat v := v + m_num_cut_calls s * aig_size s] \<rparr>)"
  using assms
proof (induction n arbitrary: s)
  case 0
  then show ?case
    by (simp add: inc_max_cutset_size_def touch_def bind_result_def aig_size_def)
next
  case (Suc n)
  let ?s1 = "s\<lparr> m_max_cutset_size_vec :=
                (m_max_cutset_size_vec s)[unat v := m_max_cutset_size_vec s ! unat v + 10],
              m_last_touched :=
                (m_last_touched s)[unat v := v + m_num_cut_calls s * aig_size s] \<rparr>"
  have step: "inc_max_cutset_size v s = Inr ?s1"
    using Suc.prems by (simp add: inc_max_cutset_size_def touch_def aig_size_def)
  have "repeat_call (Suc (Suc n)) (inc_max_cutset_size v) s
        = repeat_call (Suc n) (inc_max_cutset_size v) ?s1"
    by (simp add: step bind_result_def)
  also have "\<dots> = Inr (?s1\<lparr> m_max_cutset_size_vec :=
                (m_max_cutset_size_vec ?s1)[unat v := m_max_cutset_size_vec ?s1 ! unat v + 10 * of_nat (Suc n)],
              m_last_touched :=
                (m_last_touched ?s1)[unat v := v + m_num_cut_calls ?s1 * aig_size ?s1] \<rparr>)"
    by (rule Suc.IH) (use Suc.prems in simp_all)
  also have "\<dots> = Inr (s\<lparr> m_max_cutset_size_vec :=
                (m_max_cutset_size_vec s)[unat v := m_max_cutset_size_vec s ! unat v + 10 * of_nat (Suc (Suc n))],
              m_last_touched :=
                (m_last_touched s)[unat v := v + m_num_cut_calls s * aig_size s] \<rparr>)"
    using Suc.prems by (simp add: aig_size_def algebra_simps)
  finally show ?case .
qed

lemma add_var_0: "add_var 0 init_state = Inr one_var_state"
  by (simp add: add_var_def init_state_def one_var_state_def reserve_def grow_def touch_def
      init_cut_set_def aig_size_def Let_def config_default_def)

text \<open>
  Claim C3, as stated, fails. After \<^verbatim>\<open>add_var(0)\<close> on a fresh engine and 2147483646 calls of
  \<^verbatim>\<open>inc_max_cutset_size(0)\<close> the capacity \<open>20 + 10 * 2147483646 = 5 * 2\<^sup>3\<^sup>2\<close> has wrapped
  around to 0, while the cut-set of variable 0 holds its identity cut: the cardinality 1
  exceeds the configured maximum 0.
\<close>

theorem capacity_wraps_below_cut_set:
  "bind_result
     (bind_result (add_var 0 init_state) (repeat_call 2147483646 (inc_max_cutset_size 0)))
     (\<lambda>s. bind_result (max_cutset_size 0 s) (\<lambda>cap. Inr (length (m_cuts s ! 0), cap)))
   = Inr (1, 0)"
proof -
  have "repeat_call (Suc 2147483645) (inc_max_cutset_size 0) one_var_state =
     Inr (one_var_state\<lparr> m_max_cutset_size_vec :=
                (m_max_cutset_size_vec one_var_state)[unat (0 :: unsigned) :=
                   m_max_cutset_size_vec one_var_state ! unat (0 :: unsigned) + 10 * of_nat (Suc 2147483645)],
              m_last_touched :=
                (m_last_touched one_var_state)[unat (0 :: unsigned) :=
                   0 + m_num_cut_calls one_var_state * aig_size one_var_state] \<rparr>)"
    by (rule repeat_inc) (simp_all add: one_var_state_def)
  moreover have "Suc 2147483645 = 2147483646" by simp
  ultimately have "repeat_call 2147483646 (inc_max_cutset_size 0) one_var_state =
     Inr (one_var_state\<lparr> m_max_cutset_size_vec := [0], m_last_touched := [0] \<rparr>)"
    by (simp add: one_var_state_def aig_size_def)
  then show ?thesis
    by (simp add: add_var_0 bind_result_def max_cutset_size_def UINT_MAX_def one_var_state_def)
qed

text \<open>
  The pass fills the cut-set of variable \<open>2\<close> up to its capacity of 20, and after the
  capacity is raised to 30 the second pass leaves it with 25 cuts.
\<close>

lemma pass_eval:
  "bind_result (operator_call visit_two unit_cuts and_state)
     (\<lambda>s. bind_result (max_cutset_size 2 s)
        (\<lambda>cap. Inr (length (m_cuts s), length (m_cuts s ! 2), cap, m_max_cutset_size_vec s)))
   = Inr (3, 20, 20, [20, 20, 20])"
  by code_simp

lemma pass_inc_pass_eval:
  "bind_result pass_inc_pass
     (\<lambda>s. bind_result (max_cutset_size 2 s)
        (\<lambda>cap. Inr (length (m_cuts s), length (m_cuts s ! 2), cap)))
   = Inr (3, 25, 30)"
  by code_simp

theorem cut_set_within_capacity_witness:
  "(\<exists>s cap. operator_call visit_two unit_cuts and_state = Inr s
        \<and> max_cutset_size 2 s = Inr cap \<and> length (m_cuts s ! 2) = 20 \<and> cap = 20
        \<and> length (m_cuts s ! 2) \<le> unat cap)
   \<and> (\<exists>s cap. pass_inc_pass = Inr s
        \<and> max_cutset_size 2 s = Inr cap \<and> length (m_cuts s ! 2) = 25 \<and> cap = 30
        \<and> length (m_cuts s ! 2) \<le> unat cap)"
proof -
  from pass_eval obtain s1 cap1 where s1: "operator_call visit_two unit_cuts and_state = Inr s1"
    "max_cutset_size 2 s1 = Inr cap1" "length (m_cuts s1) = 3" "length (m_cuts s1 ! 2) = 20"
    "cap1 = 20" "m_max_cutset_size_vec s1 = [20, 20, 20]"
    by (auto simp: bind_result_def split: sum.splits)
  have r1: "reachable inc_fits s1"
    by (rule reachable.after_operator_call [OF and_state_reachable s1(1)])
  from pass_inc_pass_eval s1(1) obtain s2 s3 cap3 where
    s2: "inc_max_cutset_size 2 s1 = Inr s2"
    and s3: "operator_call visit_two unit_cuts s2 = Inr s3" "pass_inc_pass = Inr s3"
      "max_cutset_size 2 s3 = Inr cap3" "length (m_cuts s3) = 3"
      "length (m_cuts s3 ! 2) = 25" "cap3 = 30"
    by (auto simp: pass_inc_pass_def bind_result_def split: sum.splits)
  have "inc_fits s1 2" by (simp add: inc_fits_def s1(6))
  with r1 have r2: "reachable inc_fits s2"
    using s2 by (rule reachable.after_inc)
  have r3: "reachable inc_fits s3"
    by (rule reachable.after_operator_call [OF r2 s3(1)])
  from cut_set_within_capacity [OF r1, of 2] s1
  have a: "\<exists>s cap. operator_call visit_two unit_cuts and_state = Inr s
        \<and> max_cutset_size 2 s = Inr cap \<and> length (m_cuts s ! 2) = 20 \<and> cap = 20
        \<and> length (m_cuts s ! 2) \<le> unat cap"
    by auto
  from cut_set_within_capacity [OF r3, of 2] s3
  have b: "\<exists>s cap. pass_inc_pass = Inr s
        \<and> max_cutset_size 2 s = Inr cap \<and> length (m_cuts s ! 2) = 25 \<and> cap = 30
        \<and> length (m_cuts s ! 2) \<le> unat cap"
    by auto
  from a b show ?thesis by (rule conjI)
qed

section \<open>Adding a definition to a variable that is full\<close>















end
